theory Spec2Isabelle
  imports Main
begin

section \<open>export\_gff3\_feature.py: a shallow embedding\<close>

text \<open>
  The script reads a GFF3 file with an embedded FASTA block, collects the features that
  match a type and one attribute, cuts each feature out of its sequence, reverse-complements
  it on the minus strand and prints it as FASTA.

  Strings are \<open>char list\<close>. Python's \<open>str\<close> holds Unicode code points; the model covers
  the texts whose characters are code points below 256, and \<open>isspace\<close> lists the
  whitespace characters of that range. The file is given as the list of lines that
  iterating the open file yields, each with its line terminator (the last line may lack
  one). Opening the file, the command line and the printing done by \<open>main\<close> are outside
  the model. An exception is a value \<open>Inl e\<close> of \<open>py_error + 'a\<close>.
\<close>

subsection \<open>Exceptions\<close>

datatype py_key = NoneKey | StrKey string

datatype value_error =
    NotEnoughValues     \<comment> \<open>not enough values to unpack (expected 2, got fewer)\<close>
  | TooManyValues       \<comment> \<open>too many values to unpack (expected 2)\<close>
  | InvalidLiteral string  \<comment> \<open>invalid literal for int() with base 10\<close>
  | ExceedsDigitLimit   \<comment> \<open>exceeds the limit (4300 digits) for integer string conversion\<close>
  | RangeStepZero       \<comment> \<open>range() arg 3 must not be zero\<close>

datatype py_error = KeyError py_key | ValueError value_error | IndexError

subsection \<open>The string and list operations of Python that the script uses\<close>

definition tab :: char where
  "tab = CHR 0x09"

definition newline :: char where
  "newline = CHR 0x0A"

definition isspace :: "char \<Rightarrow> bool" where
  \<comment> \<open>\<open>str.isspace\<close> on one character, for code points below 256\<close>
  "isspace c \<longleftrightarrow> c \<in> {CHR 0x09, CHR 0x0A, CHR 0x0B, CHR 0x0C, CHR 0x0D,
                       CHR 0x1C, CHR 0x1D, CHR 0x1E, CHR 0x1F, CHR 0x20, CHR 0x85, CHR 0xA0}"

definition strip :: "string \<Rightarrow> string" where
  \<comment> \<open>\<open>s.strip()\<close>: whitespace is removed at both ends\<close>
  "strip s = rev (dropWhile isspace (rev (dropWhile isspace s)))"

definition startswith :: "string \<Rightarrow> string \<Rightarrow> bool" where
  \<comment> \<open>\<open>s.startswith(p)\<close>\<close>
  "startswith s p \<longleftrightarrow> take (length p) s = p"

fun split_on :: "char \<Rightarrow> string \<Rightarrow> string list" where
  \<comment> \<open>\<open>s.split(sep)\<close> for a separator of one character: empty pieces are kept\<close>
  "split_on sep [] = [[]]"
| "split_on sep (c # cs) =
     (let rs = split_on sep cs
      in if c = sep then [] # rs else (c # hd rs) # tl rs)"

function split_ws :: "string \<Rightarrow> string list" where
  \<comment> \<open>\<open>s.split()\<close>: the maximal runs of characters that are not whitespace\<close>
  "split_ws s =
     (case dropWhile isspace s of
        [] \<Rightarrow> []
      | c # cs \<Rightarrow> (c # takeWhile (\<lambda>x. \<not> isspace x) cs)
                  # split_ws (dropWhile (\<lambda>x. \<not> isspace x) cs))"
  by pat_completeness auto
termination
proof (relation "measure length")
  show "wf (measure length)" by simp
next
  fix s :: string and c cs
  assume a: "dropWhile isspace s = c # cs"
  have "length (dropWhile (\<lambda>x. \<not> isspace x) cs) \<le> length cs"
    by (rule length_dropWhile_le)
  moreover have "length (dropWhile isspace s) \<le> length s"
    by (rule length_dropWhile_le)
  ultimately show "(dropWhile (\<lambda>x. \<not> isspace x) cs, s) \<in> measure length"
    using a by simp
qed

declare split_ws.simps [simp del]

fun join :: "string \<Rightarrow> string list \<Rightarrow> string" where
  \<comment> \<open>\<open>sep.join(xs)\<close>\<close>
  "join sep [] = []"
| "join sep [x] = x"
| "join sep (x # y # ys) = x @ sep @ join sep (y # ys)"

definition py_slice :: "'a list \<Rightarrow> int \<Rightarrow> int \<Rightarrow> 'a list" where
  \<comment> \<open>\<open>s[a:b]\<close>: a negative index counts from the end, then both are clamped to \<open>0..len(s)\<close>\<close>
  "py_slice s a b =
     (let n = int (length s);
          lo = (if a < 0 then max 0 (a + n) else min a n);
          hi = (if b < 0 then max 0 (b + n) else min b n)
      in take (nat (hi - lo)) (drop (nat lo) s))"

definition py_range :: "int \<Rightarrow> int \<Rightarrow> int \<Rightarrow> py_error + int list" where
  \<comment> \<open>\<open>range(start, stop, step)\<close> as the list of its elements\<close>
  "py_range start stop step =
     (if step = 0 then Inl (ValueError RangeStepZero)
      else if 0 < step then
        Inr (map (\<lambda>k. start + int k * step) [0 ..< nat ((stop - start + step - 1) div step)])
      else
        Inr (map (\<lambda>k. start + int k * step) [0 ..< nat ((start - stop - step - 1) div (- step))]))"

definition isdigit :: "char \<Rightarrow> bool" where
  "isdigit c \<longleftrightarrow> c \<in> set ''0123456789''"

definition digit_value :: "char \<Rightarrow> int" where
  "digit_value c = int (of_char c) - 48"

definition int_space :: "char \<Rightarrow> bool" where
  \<comment> \<open>the whitespace that \<open>int\<close> skips around a literal: unlike \<open>strip\<close>, not 0x1C to 0x1F\<close>
  "int_space c \<longleftrightarrow> c \<in> {CHR 0x09, CHR 0x0A, CHR 0x0B, CHR 0x0C, CHR 0x0D, CHR 0x20,
                         CHR 0x85, CHR 0xA0}"

definition digit_or_underscore :: "char \<Rightarrow> bool" where
  "digit_or_underscore c \<longleftrightarrow> isdigit c \<or> c = CHR ''_''"

fun double_underscore :: "string \<Rightarrow> bool" where
  \<comment> \<open>two underscores stand side by side\<close>
  "double_underscore (a # b # cs) \<longleftrightarrow>
     (a = CHR ''_'' \<and> b = CHR ''_'') \<or> double_underscore (b # cs)"
| "double_underscore _ \<longleftrightarrow> False"

definition max_str_digits :: nat where
  \<comment> \<open>the default of \<open>sys.get_int_max_str_digits()\<close>\<close>
  "max_str_digits = 4300"

definition py_int :: "string \<Rightarrow> py_error + int" where
  \<comment> \<open>\<open>int(s)\<close> on a string: whitespace, an optional sign, decimal digits with single
      underscores between them, whitespace; the checks are in the interpreter's order\<close>
  "py_int s =
     (let t = dropWhile int_space s;
          neg = startswith t ''-'';
          body = (if startswith t ''-'' \<or> startswith t ''+'' then drop 1 t else t);
          run = takeWhile digit_or_underscore body;
          rest = dropWhile digit_or_underscore body;
          digits = filter isdigit run
      in if startswith run ''_'' \<or> double_underscore run
              \<or> (run \<noteq> [] \<and> last run = CHR ''_'')
         then Inl (ValueError (InvalidLiteral s))
         else if max_str_digits < length digits then Inl (ValueError ExceedsDigitLimit)
         else if run = [] \<or> dropWhile int_space rest \<noteq> []
         then Inl (ValueError (InvalidLiteral s))
         else
           (let v = foldl (\<lambda>acc c. acc * 10 + digit_value c) 0 digits
            in Inr (if neg then - v else v)))"

text \<open>
  The limit on the number of digits is the interpreter's default; it can be configured,
  and interpreters older than its introduction have none.
\<close>

subsection \<open>parse\_gff3\<close>

type_synonym feature = "string \<times> int \<times> int \<times> string"

record parse_state =
  features :: "feature list"
  fasta_start :: bool
  sequence_data :: "string \<rightharpoonup> string list"
  current_sequence_id :: "string option"

definition initial_state :: parse_state where
  "initial_state =
     \<lparr>features = [], fasta_start = False, sequence_data = Map.empty,
      current_sequence_id = None\<rparr>"

fun unpack_pairs :: "string list list \<Rightarrow> (string \<rightharpoonup> string) \<Rightarrow> py_error + (string \<rightharpoonup> string)" where
  \<comment> \<open>the dict comprehension \<open>{key: value for key, value in pairs}\<close>\<close>
  "unpack_pairs [] d = Inr d"
| "unpack_pairs (p # ps) d =
     (if length p < 2 then Inl (ValueError NotEnoughValues)
      else if 2 < length p then Inl (ValueError TooManyValues)
      else unpack_pairs ps (d(p ! 0 \<mapsto> p ! 1)))"

definition attr_dict :: "string \<Rightarrow> py_error + (string \<rightharpoonup> string)" where
  "attr_dict attributes =
     unpack_pairs (map (split_on CHR ''='') (split_on CHR '';'' attributes)) Map.empty"

definition process_line ::
  "string \<Rightarrow> string \<Rightarrow> string \<Rightarrow> parse_state \<Rightarrow> string \<Rightarrow> py_error + parse_state" where
  \<comment> \<open>the body of the loop over the lines of the file\<close>
  "process_line feature_type attribute_key attribute_value st raw =
     (let line = strip raw in
      if startswith line ''##FASTA'' then Inr (st\<lparr>fasta_start := True\<rparr>)
      else if fasta_start st then
        (if startswith line ''>'' then
           (case split_ws (drop 1 line) of
              [] \<Rightarrow> Inl IndexError
            | tok # _ \<Rightarrow>
                Inr (st\<lparr>sequence_data := (sequence_data st)(tok \<mapsto> []),
                        current_sequence_id := Some tok\<rparr>))
         else
           (case current_sequence_id st of
              None \<Rightarrow> Inl (KeyError NoneKey)
            | Some sid \<Rightarrow>
                (case sequence_data st sid of
                   None \<Rightarrow> Inl (KeyError (StrKey sid))
                 | Some acc \<Rightarrow>
                     Inr (st\<lparr>sequence_data := (sequence_data st)(sid \<mapsto> acc @ [line])\<rparr>))))
      else if startswith line ''#'' then Inr st
      else
        (let parts = split_on tab line in
         if length parts \<noteq> 9 then Inr st
         else if parts ! 2 \<noteq> feature_type then Inr st
         else
           (case attr_dict (parts ! 8) of
              Inl e \<Rightarrow> Inl e
            | Inr d \<Rightarrow>
                if d attribute_key = Some attribute_value then
                  (case py_int (parts ! 3) of
                     Inl e \<Rightarrow> Inl e
                   | Inr start \<Rightarrow>
                       (case py_int (parts ! 4) of
                          Inl e \<Rightarrow> Inl e
                        | Inr end' \<Rightarrow>
                            Inr (st\<lparr>features :=
                                      features st @ [(parts ! 0, start, end', parts ! 6)]\<rparr>)))
                else Inr st)))"

fun parse_lines ::
  "string \<Rightarrow> string \<Rightarrow> string \<Rightarrow> parse_state \<Rightarrow> string list \<Rightarrow> py_error + parse_state" where
  "parse_lines ft k v st [] = Inr st"
| "parse_lines ft k v st (l # ls) =
     (case process_line ft k v st l of
        Inl e \<Rightarrow> Inl e
      | Inr st' \<Rightarrow> parse_lines ft k v st' ls)"

definition parse_gff3 ::
  "string list \<Rightarrow> string \<Rightarrow> string \<Rightarrow> string
     \<Rightarrow> py_error + (feature list \<times> (string \<rightharpoonup> string list))" where
  "parse_gff3 gff3_lines feature_type attribute_key attribute_value =
     (case parse_lines feature_type attribute_key attribute_value initial_state gff3_lines of
        Inl e \<Rightarrow> Inl e
      | Inr st \<Rightarrow> Inr (features st, sequence_data st))"

subsection \<open>reverse\_complement, get\_sequence, format\_fasta\<close>

definition complement :: "char \<rightharpoonup> char" where
  "complement =
     [CHR ''A'' \<mapsto> CHR ''T'', CHR ''T'' \<mapsto> CHR ''A'', CHR ''C'' \<mapsto> CHR ''G'', CHR ''G'' \<mapsto> CHR ''C'']"

fun complement_each :: "string \<Rightarrow> py_error + string" where
  \<comment> \<open>\<open>''.join(complement[base] for base in bases)\<close>: the first missing key raises\<close>
  "complement_each [] = Inr []"
| "complement_each (base # bases) =
     (case complement base of
        None \<Rightarrow> Inl (KeyError (StrKey [base]))
      | Some c \<Rightarrow>
          (case complement_each bases of
             Inl e \<Rightarrow> Inl e
           | Inr r \<Rightarrow> Inr (c # r)))"

definition reverse_complement :: "string \<Rightarrow> py_error + string" where
  "reverse_complement seq = complement_each (rev seq)"

definition get_sequence ::
  "(string \<rightharpoonup> string list) \<Rightarrow> string \<Rightarrow> int \<Rightarrow> int \<Rightarrow> string \<Rightarrow> py_error + string" where
  "get_sequence sd seqid start end' strand =
     (case sd seqid of
        None \<Rightarrow> Inl (KeyError (StrKey seqid))
      | Some seq_lines \<Rightarrow>
          (let sequence = py_slice (concat seq_lines) (start - 1) end'
           in if strand = ''-'' then reverse_complement sequence else Inr sequence))"

definition format_fasta :: "string \<Rightarrow> string \<Rightarrow> int \<Rightarrow> py_error + string" where
  "format_fasta header sequence line_length =
     (case py_range 0 (int (length sequence)) line_length of
        Inl e \<Rightarrow> Inl e
      | Inr starts \<Rightarrow>
          Inr (''>'' @ header @ [newline]
               @ join [newline] (map (\<lambda>i. py_slice sequence i (i + line_length)) starts)))"

subsection \<open>Notions of the specification\<close>

definition bases :: "char set" where
  \<comment> \<open>the alphabet of the complement table\<close>
  "bases = {CHR ''A'', CHR ''T'', CHR ''C'', CHR ''G''}"

definition chars_in_range :: "'a list \<Rightarrow> nat \<Rightarrow> nat \<Rightarrow> 'a list" where
  \<comment> \<open>the characters of \<open>s\<close> at the 0-based positions \<open>a \<le> i < b\<close> that \<open>s\<close> has\<close>
  "chars_in_range s a b = map (\<lambda>i. s ! i) (filter (\<lambda>i. i < length s) [a ..< b])"

definition clamped_slice :: "'a list \<Rightarrow> int \<Rightarrow> int \<Rightarrow> 'a list" where
  \<comment> \<open>the in-bounds portion of the range \<open>[a, b)\<close>: both ends are clamped, none is moved\<close>
  "clamped_slice s a b = chars_in_range s (nat (max 0 a)) (nat (max 0 b))"

function wrap :: "nat \<Rightarrow> 'a list \<Rightarrow> 'a list list" where
  \<comment> \<open>a sequence broken into consecutive lines of \<open>n\<close> characters, the last one maybe shorter\<close>
  "wrap n s = (if n = 0 \<or> s = [] then [] else take n s # wrap n (drop n s))"
  by pat_completeness auto
termination
  by (relation "measure (\<lambda>(n, s). length s)") auto

declare wrap.simps [simp del]

definition key_value :: "string \<Rightarrow> string \<times> string" where
  \<comment> \<open>the part of an attribute token before its first \<open>=\<close> and the part after it\<close>
  "key_value token =
     (takeWhile (\<lambda>c. c \<noteq> CHR ''='') token, drop 1 (dropWhile (\<lambda>c. c \<noteq> CHR ''='') token))"

definition unpack_error :: "string \<Rightarrow> value_error" where
  \<comment> \<open>the error of unpacking the pieces of a token that does not hold exactly one \<open>=\<close>\<close>
  "unpack_error token =
     (if count_list token CHR ''='' = 0 then NotEnoughValues else TooManyValues)"

definition header_for :: "string \<Rightarrow> string \<Rightarrow> bool" where
  \<comment> \<open>\<open>raw\<close> is a FASTA header line whose identifier is \<open>sid\<close>\<close>
  "header_for sid raw \<longleftrightarrow>
     startswith (strip raw) ''>'' \<and> take 1 (split_ws (drop 1 (strip raw))) = [sid]"

definition verbatim :: "string \<Rightarrow> string" where
  \<comment> \<open>a line as it stands in the file, without its line terminator\<close>
  "verbatim raw = (if raw \<noteq> [] \<and> last raw = newline then butlast raw else raw)"

section \<open>Properties\<close>

subsection \<open>reverse\_complement\<close>

lemma complement_None_iff: "complement c = None \<longleftrightarrow> c \<notin> bases"
  by (simp add: complement_def bases_def)

lemma complement_in_bases: "complement c = Some d \<Longrightarrow> d \<in> bases \<and> complement d = Some c"
  by (auto simp: complement_def bases_def split: if_splits)

lemma complement_each_bases:
  "set s \<subseteq> bases \<Longrightarrow> complement_each s = Inr (map (\<lambda>c. the (complement c)) s)"
proof (induction s)
  case Nil
  then show ?case by simp
next
  case (Cons c s)
  then obtain d where "complement c = Some d"
    using complement_None_iff [of c] by (cases "complement c") auto
  with Cons show ?case by simp
qed

lemma the_complement_bases: "c \<in> bases \<Longrightarrow> the (complement c) \<in> bases"
  using complement_in_bases [of c] complement_None_iff [of c] by (cases "complement c") auto

lemma the_complement_twice: "c \<in> bases \<Longrightarrow> the (complement (the (complement c))) = c"
  using complement_in_bases [of c] complement_None_iff [of c] by (cases "complement c") auto

text \<open>
  C6. On a string whose characters all lie in \<open>{A, T, C, G}\<close>, reverse\_complement
  returns a string on which it returns the original: applied twice, it is the identity.
\<close>

theorem reverse_complement_involution:
  assumes "set s \<subseteq> bases"
  shows "(case reverse_complement s of Inl e \<Rightarrow> Inl e | Inr r \<Rightarrow> reverse_complement r) = Inr s"
proof -
  let ?c = "\<lambda>c. the (complement c)"
  have r: "reverse_complement s = Inr (map ?c (rev s))"
    using assms by (simp add: reverse_complement_def complement_each_bases)
  have sub: "set (rev (map ?c (rev s))) \<subseteq> bases"
    using assms by (auto simp: the_complement_bases)
  have "reverse_complement (map ?c (rev s)) = Inr (map ?c (rev (map ?c (rev s))))"
    unfolding reverse_complement_def using sub by (rule complement_each_bases)
  also have "map ?c (rev (map ?c (rev s))) = map (\<lambda>c. ?c (?c c)) s"
    by (simp add: rev_map)
  also have "\<dots> = s"
    using assms by (induction s) (auto simp: the_complement_twice)
  finally show ?thesis using r by simp
qed

theorem reverse_complement_involution_witness:
  "set ''ATCG'' \<subseteq> bases \<and> reverse_complement ''ATCG'' = Inr ''CGAT''
   \<and> reverse_complement ''CGAT'' = Inr ''ATCG''"
  using reverse_complement_involution [of "''ATCG''"]
  by (simp add: bases_def reverse_complement_def complement_def)

lemma complement_each_first_unsupported:
  "set pre \<subseteq> bases \<Longrightarrow> c \<notin> bases \<Longrightarrow>
   complement_each (pre @ c # suf) = Inl (KeyError (StrKey [c]))"
proof (induction pre)
  case Nil
  then have "complement c = None" by (simp add: complement_None_iff)
  then show ?case by simp
next
  case (Cons b pre)
  then obtain d where "complement b = Some d"
    using complement_None_iff [of b] by (cases "complement b") auto
  with Cons show ?case by simp
qed

text \<open>
  C7, as claimed, fails: the error raised is not an UnsupportedBase error. The script
  defines no error of its own; a character outside the table makes the dictionary lookup
  raise Python's KeyError.
\<close>

theorem reverse_complement_keyerror_counterexample:
  "reverse_complement ''ACGN'' = Inl (KeyError (StrKey ''N''))
   \<and> reverse_complement ''acgt'' = Inl (KeyError (StrKey ''t''))"
  by (simp add: reverse_complement_def complement_def)

text \<open>
  C7, amended. On a string with a character outside \<open>{A, T, C, G}\<close>, reverse\_complement
  raises the KeyError of the lookup in the complement table. The KeyError carries the
  offending character, the last such character of the string, since the string is read
  from its end. Nothing is returned, so no character is dropped or passed through.
\<close>

theorem reverse_complement_unsupported:
  assumes "\<not> set s \<subseteq> bases"
  shows "\<exists>pre c suf. s = pre @ c # suf \<and> c \<notin> bases \<and> set suf \<subseteq> bases
           \<and> reverse_complement s = Inl (KeyError (StrKey [c]))"
proof -
  from assms have "\<exists>c \<in> set s. c \<notin> bases" by auto
  then obtain pre c suf where s: "s = pre @ c # suf" and c: "c \<notin> bases"
      and suf: "\<forall>x \<in> set suf. \<not> x \<notin> bases"
    using split_list_last_prop [of s "\<lambda>c. c \<notin> bases"] by blast
  have "rev s = rev suf @ c # rev pre" using s by simp
  moreover have "set (rev suf) \<subseteq> bases" using suf by auto
  ultimately have "reverse_complement s = Inl (KeyError (StrKey [c]))"
    using c by (simp add: reverse_complement_def complement_each_first_unsupported)
  with s c suf show ?thesis by blast
qed

theorem reverse_complement_unsupported_witness:
  "\<not> set ''ANTx'' \<subseteq> bases \<and>
   (\<exists>pre c suf. ''ANTx'' = pre @ c # suf \<and> c \<notin> bases \<and> set suf \<subseteq> bases
           \<and> reverse_complement ''ANTx'' = Inl (KeyError (StrKey [c])))
   \<and> reverse_complement ''ANTx'' = Inl (KeyError (StrKey ''x''))
   \<and> reverse_complement ''AuG'' = Inl (KeyError (StrKey ''u''))"
proof -
  have h: "\<not> set ''ANTx'' \<subseteq> bases" by (simp add: bases_def)
  show ?thesis
    using h reverse_complement_unsupported [OF h]
    by (simp add: reverse_complement_def complement_def)
qed

subsection \<open>Slices and get\_sequence\<close>

lemma filter_less_upt: "filter (\<lambda>i. i < n) [a ..< b] = [a ..< min b n]"
proof (induction b)
  case 0
  then show ?case by simp
next
  case (Suc b)
  show ?case
  proof (cases "b < n")
    case True
    with Suc show ?thesis by (simp add: min_def)
  next
    case False
    with Suc show ?thesis by (simp add: min_def)
  qed
qed

lemma take_drop_clamp:
  "take (min b (length s) - min a (length s)) (drop (min a (length s)) s) = take (b - a) (drop a s)"
proof (cases "a \<le> length s")
  case False
  then show ?thesis by simp
next
  case True
  show ?thesis
  proof (cases "b \<le> length s")
    case True
    with \<open>a \<le> length s\<close> show ?thesis by (simp add: min_def)
  next
    case False
    with \<open>a \<le> length s\<close> show ?thesis by (simp add: min_def)
  qed
qed

lemma chars_in_range_take_drop: "chars_in_range s a b = take (b - a) (drop a s)"
proof -
  have "chars_in_range s a b = map (\<lambda>i. s ! i) [a ..< min b (length s)]"
    by (simp add: chars_in_range_def filter_less_upt)
  also have "\<dots> = take (min b (length s) - min a (length s)) (drop (min a (length s)) s)"
    by (rule nth_equalityI) (auto simp: min_def)
  also have "\<dots> = take (b - a) (drop a s)"
    by (rule take_drop_clamp)
  finally show ?thesis .
qed

lemma py_slice_chars_in_range:
  "py_slice s a b =
     chars_in_range s (nat (if a < 0 then a + int (length s) else a))
                      (nat (if b < 0 then b + int (length s) else b))"
proof -
  define n where "n = int (length s)"
  define lo where "lo = (if a < 0 then max 0 (a + n) else min a n)"
  define hi where "hi = (if b < 0 then max 0 (b + n) else min b n)"
  define A where "A = nat (if a < 0 then a + n else a)"
  define B where "B = nat (if b < 0 then b + n else b)"
  have lo: "nat lo = min A (length s)" and lo0: "0 \<le> lo"
    unfolding lo_def A_def n_def by auto
  have hi: "nat hi = min B (length s)" and hi0: "0 \<le> hi"
    unfolding hi_def B_def n_def by auto
  have "nat (hi - lo) = nat hi - nat lo"
    using lo0 hi0 by (simp add: nat_diff_distrib')
  then have "py_slice s a b = take (min B (length s) - min A (length s)) (drop (min A (length s)) s)"
    unfolding py_slice_def Let_def lo_def [symmetric, unfolded n_def] hi_def [symmetric, unfolded n_def]
    by (simp add: lo hi)
  also have "\<dots> = chars_in_range s A B"
    by (simp add: take_drop_clamp chars_in_range_take_drop)
  finally show ?thesis by (simp add: A_def B_def n_def)
qed

text \<open>
  C1. With 1-based inclusive coordinates (\<open>1 \<le> start\<close>, \<open>0 \<le> end\<close>) and \<open>seqid\<close> in the
  map, get\_sequence takes the characters of the concatenated sequence at the 0-based
  positions \<open>start - 1 \<le> i < end\<close>; on strand \<open>-\<close> they go through reverse\_complement, on
  every other strand they are returned as they are.
\<close>

theorem get_sequence_range:
  assumes "sd seqid = Some seq_lines" and "1 \<le> start" and "0 \<le> end'"
  shows "get_sequence sd seqid start end' strand =
           (if strand = ''-''
            then reverse_complement (chars_in_range (concat seq_lines) (nat (start - 1)) (nat end'))
            else Inr (chars_in_range (concat seq_lines) (nat (start - 1)) (nat end')))"
  using assms by (simp add: get_sequence_def py_slice_chars_in_range)

theorem get_sequence_range_witness:
  "[''chr'' \<mapsto> [''ACGT'', ''ACGT'']] ''chr'' = Some [''ACGT'', ''ACGT'']
   \<and> (1::int) \<le> 2 \<and> (0::int) \<le> 4
   \<and> get_sequence [''chr'' \<mapsto> [''ACGT'', ''ACGT'']] ''chr'' 2 4 ''+'' = Inr ''CGT''
   \<and> get_sequence [''chr'' \<mapsto> [''ACGT'', ''ACGT'']] ''chr'' 2 4 ''-'' = Inr ''ACG''"
  using get_sequence_range [of "[''chr'' \<mapsto> [''ACGT'', ''ACGT'']]" "''chr''" "[''ACGT'', ''ACGT'']" 2 4 "''+''"]
        get_sequence_range [of "[''chr'' \<mapsto> [''ACGT'', ''ACGT'']]" "''chr''" "[''ACGT'', ''ACGT'']" 2 4 "''-''"]
  by (simp add: chars_in_range_take_drop reverse_complement_def complement_def)

text \<open>
  C2, as claimed, fails: with \<open>start = 0\<close> the lower index is \<open>-1\<close>, which a Python slice
  counts from the end of the sequence. The slice \<open>[-1:8]\<close> of a sequence of length 8 is its
  last character, where clamping the range \<open>[-1, 8)\<close> gives the whole sequence.
\<close>

theorem get_sequence_clamp_counterexample:
  "get_sequence [''chr'' \<mapsto> [''ACGTACGT'']] ''chr'' 0 8 ''+'' = Inr ''T''
   \<and> clamped_slice ''ACGTACGT'' (0 - 1) 8 = ''ACGTACGT''"
  by (simp add: get_sequence_def py_slice_def clamped_slice_def chars_in_range_take_drop)

text \<open>
  C2, amended. For a sequence in the map and any integer coordinates, get\_sequence raises
  nothing of its own: a lower index \<open>start - 1\<close> or an upper index \<open>end\<close> below 0 is counted
  from the end of the sequence (its length is added), and the characters at the resulting
  range that the sequence has are taken, so an end beyond the length is clamped. On strand
  \<open>-\<close> the slice goes through reverse\_complement, otherwise it is returned.
\<close>

theorem get_sequence_python_slice:
  assumes "sd seqid = Some seq_lines"
  shows "get_sequence sd seqid start end' strand =
           (let s = concat seq_lines;
                a = (if 1 \<le> start then start - 1 else start - 1 + int (length s));
                b = (if 0 \<le> end' then end' else end' + int (length s));
                slice = chars_in_range s (nat a) (nat b)
            in if strand = ''-'' then reverse_complement slice else Inr slice)"
proof -
  have "(start - 1 < 0) = (\<not> 1 \<le> start)" and "(end' < 0) = (\<not> 0 \<le> end')" by auto
  then show ?thesis
    using assms by (simp add: get_sequence_def py_slice_chars_in_range Let_def)
qed

theorem get_sequence_python_slice_witness:
  "[''chr'' \<mapsto> [''ACGTACGT'']] ''chr'' = Some [''ACGTACGT'']
   \<and> get_sequence [''chr'' \<mapsto> [''ACGTACGT'']] ''chr'' 0 8 ''+'' = Inr ''T''
   \<and> get_sequence [''chr'' \<mapsto> [''ACGTACGT'']] ''chr'' (- 2) 100 ''-'' = Inr ''ACG''
   \<and> get_sequence [''chr'' \<mapsto> [''ACGTACGT'']] ''chr'' 7 100 ''.'' = Inr ''GT''"
  using get_sequence_python_slice [of "[''chr'' \<mapsto> [''ACGTACGT'']]" "''chr''" "[''ACGTACGT'']" 0 8 "''+''"]
        get_sequence_python_slice [of "[''chr'' \<mapsto> [''ACGTACGT'']]" "''chr''" "[''ACGTACGT'']" "- 2" 100 "''-''"]
        get_sequence_python_slice [of "[''chr'' \<mapsto> [''ACGTACGT'']]" "''chr''" "[''ACGTACGT'']" 7 100 "''.''"]
  by (simp add: chars_in_range_take_drop reverse_complement_def complement_def)


subsection \<open>format\_fasta\<close>

lemma wrap_Nil [simp]: "wrap n [] = []"
  by (simp add: wrap.simps)

lemma wrap_Cons: "0 < n \<Longrightarrow> s \<noteq> [] \<Longrightarrow> wrap n s = take n s # wrap n (drop n s)"
  by (subst wrap.simps) simp

lemma concat_wrap: "0 < n \<Longrightarrow> concat (wrap n s) = s"
proof (induction n s rule: wrap.induct)
  case (1 n s)
  then show ?case by (cases "s = []") (simp_all add: wrap_Cons)
qed

lemma wrap_line_lengths:
  "0 < n \<Longrightarrow> (\<forall>l \<in> set (butlast (wrap n s)). length l = n)
     \<and> (wrap n s \<noteq> [] \<longrightarrow> 0 < length (last (wrap n s)) \<and> length (last (wrap n s)) \<le> n)"
proof (induction n s rule: wrap.induct)
  case (1 n s)
  show ?case
  proof (cases "s = []")
    case True
    then show ?thesis by simp
  next
    case False
    with 1 have ih: "(\<forall>l \<in> set (butlast (wrap n (drop n s))). length l = n)
       \<and> (wrap n (drop n s) \<noteq> [] \<longrightarrow> 0 < length (last (wrap n (drop n s)))
             \<and> length (last (wrap n (drop n s))) \<le> n)"
      by simp
    have w: "wrap n s = take n s # wrap n (drop n s)"
      using False 1(2) by (rule wrap_Cons [rotated])
    show ?thesis
    proof (cases "wrap n (drop n s) = []")
      case True
      with w False 1(2) show ?thesis by simp
    next
      case nonempty: False
      then have "drop n s \<noteq> []" by auto
      then have "n < length s" by simp
      with w nonempty ih show ?thesis by simp
    qed
  qed
qed

lemma py_slice_line: "py_slice s (int k * int n) (int k * int n + int n) = take n (drop (k * n) s)"
proof -
  have "py_slice s (int k * int n) (int k * int n + int n)
          = chars_in_range s (k * n) (k * n + n)"
    by (simp add: py_slice_chars_in_range of_nat_mult [symmetric] of_nat_add [symmetric]
          del: of_nat_mult of_nat_add)
  then show ?thesis by (simp add: chars_in_range_take_drop)
qed

lemma lines_eq_wrap:
  "0 < n \<Longrightarrow> map (\<lambda>k. take n (drop (k * n) s)) [0 ..< (length s + n - 1) div n] = wrap n s"
proof (induction n s rule: wrap.induct)
  case (1 n s)
  show ?case
  proof (cases "s = []")
    case True
    with 1(2) show ?thesis by simp
  next
    case False
    with 1 have ih: "map (\<lambda>k. take n (drop (k * n) (drop n s)))
                       [0 ..< (length (drop n s) + n - 1) div n] = wrap n (drop n s)"
      by simp
    have cnt: "(length s + n - 1) div n = Suc ((length (drop n s) + n - 1) div n)"
    proof (cases "n \<le> length s")
      case True
      then obtain m where m: "length s = n + m"
        using le_Suc_ex by blast
      have "(n + m + n - 1) div n = (n + (m + n - 1)) div n"
        using 1(2) by (simp add: add.assoc)
      also have "\<dots> = Suc ((m + n - 1) div n)"
        using 1(2) by (simp only: div_add_self1)
      finally show ?thesis by (simp add: m)
    next
      case False
      have "0 < length s" using \<open>s \<noteq> []\<close> by simp
      have lb: "n * 1 \<le> length s + n - 1"
        using \<open>0 < length s\<close> by arith
      have ub: "length s + n - 1 < n * Suc 1"
        using False by arith
      have "(length s + n - 1) div n = 1"
        using lb ub by (rule div_nat_eqI)
      moreover have "(length (drop n s) + n - 1) div n = 0"
        using False 1(2) by simp
      ultimately show ?thesis by simp
    qed
    have "map (\<lambda>k. take n (drop (k * n) s)) [0 ..< (length s + n - 1) div n]
            = take n s # map (\<lambda>k. take n (drop (Suc k * n) s)) [0 ..< (length (drop n s) + n - 1) div n]"
      unfolding cnt by (simp add: upt_conv_Cons map_Suc_upt [symmetric] del: upt_Suc)
    also have "\<dots> = take n s # wrap n (drop n s)"
      using ih by (simp add: add.commute)
    finally show ?thesis using False 1(2) by (simp add: wrap_Cons)
  qed
qed

lemma format_fasta_positive:
  assumes "0 < n"
  shows "format_fasta header s (int n) = Inr (''>'' @ header @ [newline] @ join [newline] (wrap n s))"
proof -
  have cnt: "nat ((int (length s) - 0 + int n - 1) div int n) = (length s + n - 1) div n"
  proof -
    have e: "int (length s) - 0 + int n - 1 = int (length s + n - 1)"
      using assms by (simp add: of_nat_diff)
    show ?thesis unfolding e by (simp only: zdiv_int [symmetric] nat_int)
  qed
  have "map (\<lambda>i. py_slice s i (i + int n)) (map (\<lambda>k. 0 + int k * int n) [0 ..< (length s + n - 1) div n])
          = map (\<lambda>k. take n (drop (k * n) s)) [0 ..< (length s + n - 1) div n]"
    by (simp add: py_slice_line o_def)
  also have "\<dots> = wrap n s"
    using assms by (rule lines_eq_wrap)
  finally show ?thesis
    using assms unfolding format_fasta_def py_range_def cnt by simp
qed

text \<open>
  C8. For a line length \<open>n \<ge> 1\<close> format\_fasta returns \<open>>\<close>, the header, a newline and the
  lines of the wrapped sequence joined by single newlines. The lines concatenate to the
  sequence, every line but the last has exactly \<open>n\<close> characters, and the last line of a
  sequence that is not empty has between 1 and \<open>n\<close> characters, so that nothing follows
  the last content line.
\<close>

theorem format_fasta_wraps:
  assumes "1 \<le> line_length"
  shows "format_fasta header s line_length
           = Inr (''>'' @ header @ [newline] @ join [newline] (wrap (nat line_length) s))
         \<and> concat (wrap (nat line_length) s) = s
         \<and> (\<forall>l \<in> set (butlast (wrap (nat line_length) s)). length l = nat line_length)
         \<and> (s \<noteq> [] \<longrightarrow> wrap (nat line_length) s \<noteq> []
                \<and> 0 < length (last (wrap (nat line_length) s))
                \<and> length (last (wrap (nat line_length) s)) \<le> nat line_length)"
proof -
  have n: "0 < nat line_length" and eq: "int (nat line_length) = line_length"
    using assms by simp_all
  have "format_fasta header s line_length
          = Inr (''>'' @ header @ [newline] @ join [newline] (wrap (nat line_length) s))"
    using format_fasta_positive [OF n, of header s] unfolding eq .
  moreover have "s \<noteq> [] \<longrightarrow> wrap (nat line_length) s \<noteq> []"
    using n by (simp add: wrap_Cons)
  ultimately show ?thesis
    using concat_wrap [OF n, of s] wrap_line_lengths [OF n, of s] by simp
qed

theorem format_fasta_wraps_witness:
  "(1::int) \<le> 4
   \<and> format_fasta ''h'' ''ACGTACGTAC'' 4
       = Inr (''>h'' @ [newline] @ ''ACGT'' @ [newline] @ ''ACGT'' @ [newline] @ ''AC'')
   \<and> wrap 4 ''ACGTACGTAC'' = [''ACGT'', ''ACGT'', ''AC'']"
proof -
  have w: "wrap 4 ''ACGTACGTAC'' = [''ACGT'', ''ACGT'', ''AC'']"
    by (simp add: wrap.simps)
  show ?thesis
    using format_fasta_wraps [of 4 "''h''" "''ACGTACGTAC''"] by (simp add: w)
qed

text \<open>
  C9, as claimed, fails: a negative line length is not rejected. The range of line starts
  is empty, and the header line alone is returned.
\<close>

theorem format_fasta_nonpositive_counterexample:
  "format_fasta ''h'' ''ACGT'' (- 1) = Inr (''>h'' @ [newline])"
  by (simp add: format_fasta_def py_range_def)

text \<open>
  C9, amended. Line length 0 makes format\_fasta raise the ValueError of \<open>range\<close> with
  step 0. A negative line length raises nothing: the result is \<open>>\<close>, the header and a
  newline, without any line of the sequence.
\<close>

theorem format_fasta_nonpositive:
  assumes "line_length \<le> 0"
  shows "format_fasta header s line_length
           = (if line_length = 0 then Inl (ValueError RangeStepZero)
              else Inr (''>'' @ header @ [newline]))"
proof (cases "line_length = 0")
  case True
  then show ?thesis by (simp add: format_fasta_def py_range_def)
next
  case False
  with assms have neg: "line_length < 0" by simp
  have "(0 - int (length s) - line_length - 1) div (- line_length) \<le> 0"
  proof -
    have "0 - int (length s) - line_length - 1 \<le> - line_length - 1" by simp
    then have "(0 - int (length s) - line_length - 1) div (- line_length)
                 \<le> (- line_length - 1) div (- line_length)"
      using neg by (intro zdiv_mono1) simp_all
    also have "(- line_length - 1) div (- line_length) = 0"
      using neg by (intro div_pos_pos_trivial) simp_all
    finally show ?thesis .
  qed
  then show ?thesis
    using neg by (simp add: format_fasta_def py_range_def)
qed

theorem format_fasta_nonpositive_witness:
  "(0::int) \<le> 0 \<and> (- 3::int) \<le> 0
   \<and> format_fasta ''h'' ''ACGT'' 0 = Inl (ValueError RangeStepZero)
   \<and> format_fasta ''h'' ''ACGT'' (- 3) = Inr (''>h'' @ [newline])"
  using format_fasta_nonpositive [of 0 "''h''" "''ACGT''"]
        format_fasta_nonpositive [of "- 3" "''h''" "''ACGT''"]
  by simp

text \<open>
  C10. For every header and every line length \<open>n \<ge> 1\<close>, formatting the empty sequence
  returns \<open>>\<close>, the header and the newline after it, and nothing else.
\<close>

theorem format_fasta_empty_sequence:
  assumes "1 \<le> line_length"
  shows "format_fasta header [] line_length = Inr (''>'' @ header @ [newline])"
proof -
  have "(line_length - 1) div line_length = 0"
    using assms by (simp add: div_pos_pos_trivial)
  then show ?thesis
    using assms by (simp add: format_fasta_def py_range_def)
qed

theorem format_fasta_empty_sequence_witness:
  "(1::int) \<le> 60 \<and> format_fasta ''gene:ID:YAL069W'' [] 60 = Inr (''>gene:ID:YAL069W'' @ [newline])"
  using format_fasta_empty_sequence [of 60 "''gene:ID:YAL069W''"] by simp

subsection \<open>parse\_gff3: the FASTA marker\<close>

lemma process_line_marker:
  "startswith (strip raw) ''##FASTA'' \<Longrightarrow>
   process_line ft k v st raw = Inr (st\<lparr>fasta_start := True\<rparr>)"
  by (simp add: process_line_def)

lemma process_line_fasta_start:
  assumes "process_line ft k v st raw = Inr st'"
  shows "fasta_start st' \<longleftrightarrow> fasta_start st \<or> startswith (strip raw) ''##FASTA''"
proof (cases "startswith (strip raw) ''##FASTA''")
  case True
  with assms show ?thesis by (auto simp: process_line_marker)
next
  case False
  show ?thesis
  proof (cases "fasta_start st")
    case True
    with False assms show ?thesis
      by (auto simp: process_line_def Let_def split: if_splits list.splits option.splits)
  next
    case nofasta: False
    with False assms show ?thesis
      by (auto simp: process_line_def Let_def split: if_splits sum.splits)
  qed
qed

lemma parse_lines_fasta_start:
  "parse_lines ft k v st ls = Inr st' \<Longrightarrow>
   fasta_start st' \<longleftrightarrow> fasta_start st \<or> (\<exists>l \<in> set ls. startswith (strip l) ''##FASTA'')"
proof (induction ls arbitrary: st)
  case Nil
  then show ?case by simp
next
  case (Cons l ls)
  then obtain st1 where s1: "process_line ft k v st l = Inr st1"
      and s2: "parse_lines ft k v st1 ls = Inr st'"
    by (auto split: sum.splits)
  from Cons.IH [OF s2] process_line_fasta_start [OF s1] show ?case by auto
qed


text \<open>
  C3, as claimed, fails: the marker is recognised by its prefix, not by equality. A line
  \<open>##FASTA2\<close> also switches to sequence mode, so that the lines after it are read as
  FASTA.
\<close>

theorem fasta_marker_exact_counterexample:
  "strip (''##FASTA2'' @ [newline]) \<noteq> ''##FASTA''
   \<and> process_line ''gene'' ''ID'' ''x'' initial_state (''##FASTA2'' @ [newline])
       = Inr (initial_state\<lparr>fasta_start := True\<rparr>)
   \<and> (case parse_gff3 [''##FASTA2'' @ [newline], ''>s'' @ [newline], ''AC'' @ [newline]]
               ''gene'' ''ID'' ''x'' of
         Inl e \<Rightarrow> None
       | Inr (fs, sd) \<Rightarrow> sd ''s'') = Some [''AC'']"
  by (simp add: parse_gff3_def process_line_def initial_state_def strip_def isspace_def
        startswith_def newline_def split_ws.simps)


text \<open>
  C3, amended. A line that starts with \<open>##FASTA\<close> once whitespace is removed at both of
  its ends changes nothing but the mode flag, which it sets: it adds no feature and no
  sequence data. After any lines that parse without error the flag is set exactly when it
  was set before or one of the lines is such a marker line: only a marker line sets it,
  and nothing clears it.
\<close>

theorem fasta_marker_prefix:
  "(startswith (strip raw) ''##FASTA'' \<longrightarrow>
      process_line ft k v st raw = Inr (st\<lparr>fasta_start := True\<rparr>))
   \<and> (parse_lines ft k v st ls = Inr st' \<longrightarrow>
        (fasta_start st' \<longleftrightarrow>
           fasta_start st \<or> (\<exists>l \<in> set ls. startswith (strip l) ''##FASTA'')))"
  using process_line_marker [of raw ft k v st] parse_lines_fasta_start [of ft k v st ls st']
  by blast

theorem fasta_marker_prefix_witness:
  "startswith (strip ('' ##FASTA block'' @ [newline])) ''##FASTA''
   \<and> process_line ''gene'' ''ID'' ''x'' initial_state ('' ##FASTA block'' @ [newline])
       = Inr (initial_state\<lparr>fasta_start := True\<rparr>)
   \<and> parse_lines ''gene'' ''ID'' ''x'' initial_state
        [''# note'' @ [newline], '' ##FASTA block'' @ [newline], ''>s'' @ [newline], ''AC'']
       = Inr \<lparr>features = [], fasta_start = True, sequence_data = [''s'' \<mapsto> [''AC'']],
              current_sequence_id = Some ''s''\<rparr>
   \<and> (\<exists>l \<in> set [''# note'' @ [newline], '' ##FASTA block'' @ [newline], ''>s'' @ [newline], ''AC''].
         startswith (strip l) ''##FASTA'')"
  using fasta_marker_prefix [of "'' ##FASTA block'' @ [newline]" "''gene''" "''ID''" "''x''"
          initial_state
          "[''# note'' @ [newline], '' ##FASTA block'' @ [newline], ''>s'' @ [newline], ''AC'']"
          "\<lparr>features = [], fasta_start = True, sequence_data = [''s'' \<mapsto> [''AC'']],
              current_sequence_id = Some ''s''\<rparr>"]
  by (simp add: process_line_def initial_state_def strip_def isspace_def
        startswith_def newline_def tab_def split_ws.simps)

subsection \<open>parse\_gff3: the attributes column\<close>

lemma split_on_nonempty [simp]: "split_on sep s \<noteq> []"
  by (induction s) (auto simp: Let_def)

lemma length_split_on: "length (split_on sep s) = Suc (count_list s sep)"
proof (induction s)
  case Nil
  then show ?case by simp
next
  case (Cons c s)
  have "length (tl (split_on sep s)) = count_list s sep"
    using Cons by simp
  with Cons show ?case by (simp add: Let_def)
qed

lemma split_on_no_sep: "count_list s sep = 0 \<Longrightarrow> split_on sep s = [s]"
  by (induction s) (auto simp: Let_def split: if_splits)

lemma split_on_one_sep:
  "count_list s sep = 1 \<Longrightarrow>
   split_on sep s = [takeWhile (\<lambda>c. c \<noteq> sep) s, drop 1 (dropWhile (\<lambda>c. c \<noteq> sep) s)]"
proof (induction s)
  case Nil
  then show ?case by simp
next
  case (Cons c s)
  show ?case
  proof (cases "c = sep")
    case True
    with Cons.prems have "count_list s sep = 0" by simp
    with True show ?thesis by (simp add: split_on_no_sep Let_def)
  next
    case False
    with Cons.prems have "count_list s sep = 1" by simp
    with Cons.IH False show ?thesis by (simp add: Let_def)
  qed
qed

lemma unpack_pairs_tokens:
  "unpack_pairs (map (split_on CHR ''='') tokens) d =
     (case find (\<lambda>t. count_list t CHR ''='' \<noteq> 1) tokens of
        Some bad \<Rightarrow> Inl (ValueError (unpack_error bad))
      | None \<Rightarrow> Inr (d ++ map_of (rev (map key_value tokens))))"
proof (induction tokens arbitrary: d)
  case Nil
  then show ?case by simp
next
  case (Cons t ts)
  show ?case
  proof (cases "count_list t CHR ''='' = 1")
    case True
    then have sp: "split_on CHR ''='' t = [fst (key_value t), snd (key_value t)]"
      by (simp add: split_on_one_sep key_value_def)
    have m: "d(fst (key_value t) \<mapsto> snd (key_value t)) ++ map_of (rev (map key_value ts))
               = d ++ map_of (rev (map key_value (t # ts)))"
      by (rule ext) (simp add: map_add_def split: option.splits)
    have "unpack_pairs (map (split_on CHR ''='') (t # ts)) d
            = unpack_pairs (map (split_on CHR ''='') ts) (d(fst (key_value t) \<mapsto> snd (key_value t)))"
      using sp by simp
    also have "\<dots> = (case find (\<lambda>t. count_list t CHR ''='' \<noteq> 1) ts of
                         Some bad \<Rightarrow> Inl (ValueError (unpack_error bad))
                       | None \<Rightarrow> Inr (d(fst (key_value t) \<mapsto> snd (key_value t))
                                       ++ map_of (rev (map key_value ts))))"
      by (rule Cons.IH)
    also have "\<dots> = (case find (\<lambda>t. count_list t CHR ''='' \<noteq> 1) ts of
                         Some bad \<Rightarrow> Inl (ValueError (unpack_error bad))
                       | None \<Rightarrow> Inr (d ++ map_of (rev (map key_value (t # ts)))))"
      by (simp only: m)
    also have "\<dots> = (case find (\<lambda>t. count_list t CHR ''='' \<noteq> 1) (t # ts) of
                         Some bad \<Rightarrow> Inl (ValueError (unpack_error bad))
                       | None \<Rightarrow> Inr (d ++ map_of (rev (map key_value (t # ts)))))"
      using True by simp
    finally show ?thesis .
  next
    case False
    have len: "length (split_on CHR ''='' t) = Suc (count_list t CHR ''='')"
      by (rule length_split_on)
    from False len show ?thesis by (auto simp: unpack_error_def)
  qed
qed

lemma marker_is_comment: "startswith s ''##FASTA'' \<Longrightarrow> startswith s ''#''"
  by (cases s) (auto simp: startswith_def)

lemma process_line_attributes:
  assumes "\<not> fasta_start st" and "\<not> startswith (strip raw) ''#''"
    and "length (split_on tab (strip raw)) = 9"
    and "split_on tab (strip raw) ! 2 = ft"
    and "attr_dict (split_on tab (strip raw) ! 8) = Inl e"
  shows "process_line ft k v st raw = Inl e"
proof -
  have "\<not> startswith (strip raw) ''##FASTA''"
    using assms(2) marker_is_comment by blast
  with assms show ?thesis by (simp add: process_line_def Let_def)
qed

text \<open>
  C4, as claimed, fails: a token is split on every \<open>=\<close>, not on the first one, and the
  pieces are unpacked into exactly two names. A value that contains \<open>=\<close> makes the
  unpacking raise.
\<close>

theorem attributes_first_equals_counterexample:
  "parse_gff3 [join [tab] [''chrI'', ''src'', ''gene'', ''1'', ''3'', ''.'', ''+'', ''.'', ''ID=a=b'']
                 @ [newline]]
              ''gene'' ''ID'' ''a=b''
     = Inl (ValueError TooManyValues)"
  by (simp add: parse_gff3_def process_line_def initial_state_def strip_def isspace_def
        startswith_def newline_def tab_def Let_def attr_dict_def)


text \<open>
  C4, amended. For an annotation line that has 9 tab-separated fields once the whitespace
  at both of its ends is removed, and the wanted feature type, the attributes are split on \<open>;\<close> and each token on every \<open>=\<close>. The first token
  that does not hold exactly one \<open>=\<close> makes parsing fail with the ValueError of the
  unpacking (not enough values for no \<open>=\<close>, too many for several), which names no line;
  no attribute map is built. When every token holds exactly one \<open>=\<close>, the map sends each
  key to the value of its last token, and a line whose attribute does not match leaves the
  state as it was.
\<close>

theorem attributes_one_equals:
  assumes "\<not> fasta_start st" and "\<not> startswith (strip raw) ''#''"
    and "parts = split_on tab (strip raw)" and "length parts = 9" and "parts ! 2 = ft"
    and "tokens = split_on CHR '';'' (parts ! 8)"
  shows "case find (\<lambda>t. count_list t CHR ''='' \<noteq> 1) tokens of
           Some bad \<Rightarrow> process_line ft k v st raw = Inl (ValueError (unpack_error bad))
         | None \<Rightarrow>
             attr_dict (parts ! 8) = Inr (map_of (rev (map key_value tokens)))
             \<and> (map_of (rev (map key_value tokens)) k \<noteq> Some v \<longrightarrow>
                  process_line ft k v st raw = Inr st)"
proof -
  have ad: "attr_dict (parts ! 8) =
     (case find (\<lambda>t. count_list t CHR ''='' \<noteq> 1) tokens of
        Some bad \<Rightarrow> Inl (ValueError (unpack_error bad))
      | None \<Rightarrow> Inr (map_of (rev (map key_value tokens))))"
    unfolding attr_dict_def assms(6) [symmetric]
    by (simp add: unpack_pairs_tokens split: option.splits)
  have nm: "\<not> startswith (strip raw) ''##FASTA''"
    using assms(2) marker_is_comment by blast
  show ?thesis
  proof (cases "find (\<lambda>t. count_list t CHR ''='' \<noteq> 1) tokens")
    case (Some bad)
    with ad have "attr_dict (split_on tab (strip raw) ! 8) = Inl (ValueError (unpack_error bad))"
      by (simp add: assms(3))
    with assms have "process_line ft k v st raw = Inl (ValueError (unpack_error bad))"
      by (intro process_line_attributes) simp_all
    with Some show ?thesis by simp
  next
    case None
    with ad have d: "attr_dict (parts ! 8) = Inr (map_of (rev (map key_value tokens)))"
      by simp
    have "map_of (rev (map key_value tokens)) k \<noteq> Some v \<Longrightarrow> process_line ft k v st raw = Inr st"
      using assms(1,4,5) nm d unfolding assms(3)
      by (simp add: process_line_def Let_def)
    with None d show ?thesis by simp
  qed
qed

theorem attributes_one_equals_witness:
  "\<not> fasta_start initial_state
   \<and> find (\<lambda>t. count_list t CHR ''='' \<noteq> 1) [''ID=g1'', ''note''] = Some ''note''
   \<and> process_line ''gene'' ''ID'' ''g1'' initial_state
        (join [tab] [''chrI'', ''src'', ''gene'', ''1'', ''3'', ''.'', ''+'', ''.'', ''ID=g1;note'']
           @ [newline])
       = Inl (ValueError NotEnoughValues)
   \<and> find (\<lambda>t. count_list t CHR ''='' \<noteq> 1) [''ID=g1'', ''Name=a'', ''ID=g2''] = None
   \<and> attr_dict ''ID=g1;Name=a;ID=g2'' = Inr [''ID'' \<mapsto> ''g2'', ''Name'' \<mapsto> ''a'']
   \<and> process_line ''gene'' ''ID'' ''g1'' initial_state
        (join [tab] [''chrI'', ''src'', ''gene'', ''1'', ''3'', ''.'', ''+'', ''.'',
                     ''ID=g1;Name=a;ID=g2'']
           @ [newline])
       = Inr initial_state"
  using attributes_one_equals [of initial_state
          "join [tab] [''chrI'', ''src'', ''gene'', ''1'', ''3'', ''.'', ''+'', ''.'', ''ID=g1;note'']
             @ [newline]"
          "[''chrI'', ''src'', ''gene'', ''1'', ''3'', ''.'', ''+'', ''.'', ''ID=g1;note'']"
          "''gene''" "[''ID=g1'', ''note'']" "''ID''" "''g1''"]
        attributes_one_equals [of initial_state
          "join [tab] [''chrI'', ''src'', ''gene'', ''1'', ''3'', ''.'', ''+'', ''.'',
                       ''ID=g1;Name=a;ID=g2'']
             @ [newline]"
          "[''chrI'', ''src'', ''gene'', ''1'', ''3'', ''.'', ''+'', ''.'', ''ID=g1;Name=a;ID=g2'']"
          "''gene''" "[''ID=g1'', ''Name=a'', ''ID=g2'']" "''ID''" "''g1''"]
  by (simp add: initial_state_def strip_def isspace_def startswith_def newline_def tab_def
        Let_def unpack_error_def key_value_def fun_upd_twist)

subsection \<open>parse\_gff3: the FASTA section\<close>

lemma header_not_marker: "startswith s ''>'' \<Longrightarrow> \<not> startswith s ''##FASTA''"
  by (cases s) (auto simp: startswith_def)

lemma startswith_gt: "startswith s ''>'' \<longleftrightarrow> (\<exists>rest. s = CHR ''>'' # rest)"
  by (cases s) (auto simp: startswith_def)

lemma process_line_header:
  assumes "fasta_start st" and "strip raw = CHR ''>'' # rest" and "split_ws rest = sid # toks"
  shows "process_line ft k v st raw =
           Inr (st\<lparr>sequence_data := (sequence_data st)(sid \<mapsto> []),
                   current_sequence_id := Some sid\<rparr>)"
proof -
  have "startswith (strip raw) ''>''" using assms(2) by (simp add: startswith_gt)
  then have "\<not> startswith (strip raw) ''##FASTA''" by (rule header_not_marker)
  with assms \<open>startswith (strip raw) ''>''\<close> show ?thesis
    by (simp add: process_line_def)
qed

lemma fasta_start_again: "fasta_start st \<Longrightarrow> st\<lparr>fasta_start := True\<rparr> = st"
  by (cases st) simp

lemma process_line_sequence:
  assumes "fasta_start st" and "\<not> startswith (strip raw) ''>''"
    and "current_sequence_id st = Some sid" and "sequence_data st sid = Some acc"
  shows "process_line ft k v st raw =
           Inr (if startswith (strip raw) ''##FASTA'' then st
                else st\<lparr>sequence_data := (sequence_data st)(sid \<mapsto> acc @ [strip raw])\<rparr>)"
  using assms by (simp add: process_line_def fasta_start_again)

lemma parse_lines_body:
  assumes "fasta_start st" and "current_sequence_id st = Some sid"
    and "sequence_data st sid = Some acc"
    and "\<forall>l \<in> set body. \<not> startswith (strip l) ''>''"
  shows "parse_lines ft k v st body =
           Inr (st\<lparr>sequence_data := (sequence_data st)
                     (sid \<mapsto> acc @ map strip (filter (\<lambda>l. \<not> startswith (strip l) ''##FASTA'') body))\<rparr>)"
  using assms
proof (induction body arbitrary: st acc)
  case Nil
  then have "(sequence_data st)(sid \<mapsto> acc) = sequence_data st" by (simp add: fun_upd_idem)
  then show ?case by simp
next
  case (Cons l body)
  have nh: "\<not> startswith (strip l) ''>''" using Cons.prems(4) by simp
  have rest: "\<forall>l \<in> set body. \<not> startswith (strip l) ''>''" using Cons.prems(4) by simp
  show ?case
  proof (cases "startswith (strip l) ''##FASTA''")
    case True
    then have "process_line ft k v st l = Inr st"
      using process_line_sequence [OF Cons.prems(1) nh Cons.prems(2,3)] by simp
    with True Cons.IH [OF Cons.prems(1,2,3) rest] show ?thesis by simp
  next
    case False
    let ?st = "st\<lparr>sequence_data := (sequence_data st)(sid \<mapsto> acc @ [strip l])\<rparr>"
    have step: "process_line ft k v st l = Inr ?st"
      using process_line_sequence [OF Cons.prems(1) nh Cons.prems(2,3)] False by simp
    have f: "map strip (filter (\<lambda>l. \<not> startswith (strip l) ''##FASTA'') (l # body))
               = strip l # map strip (filter (\<lambda>l. \<not> startswith (strip l) ''##FASTA'') body)"
      using False by simp
    have ih: "parse_lines ft k v ?st body =
            Inr (?st\<lparr>sequence_data := (sequence_data ?st)
                   (sid \<mapsto> (acc @ [strip l])
                      @ map strip (filter (\<lambda>l. \<not> startswith (strip l) ''##FASTA'') body))\<rparr>)"
      using Cons.prems(1,2) rest by (intro Cons.IH) simp_all
    have "parse_lines ft k v st (l # body) = parse_lines ft k v ?st body"
      using step by simp
    also have "\<dots> = Inr (st\<lparr>sequence_data := (sequence_data st)
                   (sid \<mapsto> acc @ strip l
                      # map strip (filter (\<lambda>l. \<not> startswith (strip l) ''##FASTA'') body))\<rparr>)"
      unfolding ih by simp
    finally show ?thesis unfolding f .
  qed
qed

lemma parse_lines_append:
  "parse_lines ft k v st (xs @ ys) =
     (case parse_lines ft k v st xs of Inl e \<Rightarrow> Inl e | Inr st1 \<Rightarrow> parse_lines ft k v st1 ys)"
  by (induction xs arbitrary: st) (auto split: sum.splits)

lemma process_line_other_entry:
  assumes "fasta_start st" and "process_line ft k v st raw = Inr st'"
    and "\<not> header_for sid raw"
    and "startswith (strip raw) ''>'' \<or> current_sequence_id st \<noteq> Some sid"
  shows "sequence_data st' sid = sequence_data st sid \<and> current_sequence_id st' \<noteq> Some sid
         \<and> fasta_start st'"
proof (cases "startswith (strip raw) ''>''")
  case True
  then have nm: "\<not> startswith (strip raw) ''##FASTA''" by (rule header_not_marker)
  from True assms(3) have "take 1 (split_ws (drop 1 (strip raw))) \<noteq> [sid]"
    by (simp add: header_for_def)
  with True nm assms(1,2) show ?thesis
    by (auto simp: process_line_def Let_def split: list.splits)
next
  case False
  with assms(4) have "current_sequence_id st \<noteq> Some sid" by simp
  with False assms(1,2) show ?thesis
    by (auto simp: process_line_def Let_def fasta_start_again split: if_splits option.splits)
qed

lemma parse_lines_other_entry:
  assumes "fasta_start st" and "parse_lines ft k v st ls = Inr st'"
    and "\<forall>l \<in> set ls. \<not> header_for sid l"
    and "ls = [] \<or> startswith (strip (hd ls)) ''>'' \<or> current_sequence_id st \<noteq> Some sid"
  shows "sequence_data st' sid = sequence_data st sid"
  using assms
proof (induction ls arbitrary: st)
  case Nil
  then show ?case by simp
next
  case (Cons l ls)
  then obtain st1 where s1: "process_line ft k v st l = Inr st1"
      and s2: "parse_lines ft k v st1 ls = Inr st'"
    by (auto split: sum.splits)
  have "startswith (strip l) ''>'' \<or> current_sequence_id st \<noteq> Some sid"
    using Cons.prems(4) by simp
  with process_line_other_entry [OF Cons.prems(1) s1, of sid] Cons.prems(3)
  have keep: "sequence_data st1 sid = sequence_data st sid"
    and cur: "current_sequence_id st1 \<noteq> Some sid" and fs: "fasta_start st1"
    by simp_all
  have "sequence_data st' sid = sequence_data st1 sid"
    using fs s2 Cons.prems(3) cur by (intro Cons.IH) simp_all
  with keep show ?case by simp
qed

lemma header_forD:
  assumes "header_for sid raw"
  shows "\<exists>rest toks. strip raw = CHR ''>'' # rest \<and> split_ws rest = sid # toks"
proof -
  from assms obtain rest where r: "strip raw = CHR ''>'' # rest"
    by (auto simp: header_for_def startswith_gt)
  with assms have "take 1 (split_ws rest) = [sid]" by (simp add: header_for_def)
  then obtain toks where "split_ws rest = sid # toks"
    by (cases "split_ws rest") simp_all
  with r show ?thesis by blast
qed


text \<open>
  C5, as claimed, fails: a sequence line is stored without the whitespace at both of its
  ends, and a line that starts with \<open>##FASTA\<close> is dropped in sequence mode too. The lines
  kept for \<open>s\<close> are not the lines of the file as they stand.
\<close>

theorem fasta_lines_verbatim_counterexample:
  "(case parse_gff3 [''##FASTA'' @ [newline], ''>s'' @ [newline], '' AC'' @ [newline],
                     ''##FASTA2'' @ [newline], ''GT'' @ [newline]]
               ''gene'' ''ID'' ''x'' of
      Inl e \<Rightarrow> None
    | Inr (fs, sd) \<Rightarrow> sd ''s'') = Some [''AC'', ''GT'']
   \<and> map verbatim ['' AC'' @ [newline], ''##FASTA2'' @ [newline], ''GT'' @ [newline]]
       = ['' AC'', ''##FASTA2'', ''GT'']"
  by (simp add: parse_gff3_def process_line_def initial_state_def strip_def isspace_def
        startswith_def newline_def split_ws.simps verbatim_def)

text \<open>
  C5, amended. In sequence mode a header line for \<open>sid\<close> (a line that starts with \<open>>\<close>
  once stripped, with \<open>sid\<close> the first whitespace-delimited token after it) followed by
  lines that are no headers parses without error: the entry of \<open>sid\<close> is reset, whatever
  it held, and receives in order the following lines, each stripped of the whitespace at
  both ends, the lines that start with \<open>##FASTA\<close> left out. When the lines after them
  start with a header and hold no header for \<open>sid\<close>, the final map still sends \<open>sid\<close>
  to these lines.
\<close>

theorem fasta_entry_lines:
  assumes "fasta_start st" and "header_for sid hdr"
    and "\<forall>l \<in> set body. \<not> startswith (strip l) ''>''"
  shows "parse_lines ft k v st (hdr # body) =
           Inr (st\<lparr>sequence_data := (sequence_data st)
                     (sid \<mapsto> map strip (filter (\<lambda>l. \<not> startswith (strip l) ''##FASTA'') body)),
                   current_sequence_id := Some sid\<rparr>)
         \<and> ((later = [] \<or> startswith (strip (hd later)) ''>'')
              \<and> (\<forall>l \<in> set later. \<not> header_for sid l)
              \<and> parse_lines ft k v st (hdr # body @ later) = Inr st'
            \<longrightarrow> sequence_data st' sid =
                  Some (map strip (filter (\<lambda>l. \<not> startswith (strip l) ''##FASTA'') body)))"
proof -
  let ?lines = "map strip (filter (\<lambda>l. \<not> startswith (strip l) ''##FASTA'') body)"
  let ?st1 = "st\<lparr>sequence_data := (sequence_data st)(sid \<mapsto> []), current_sequence_id := Some sid\<rparr>"
  let ?st2 = "st\<lparr>sequence_data := (sequence_data st)(sid \<mapsto> ?lines), current_sequence_id := Some sid\<rparr>"
  from assms(2) obtain rest toks where "strip hdr = CHR ''>'' # rest" "split_ws rest = sid # toks"
    using header_forD by blast
  with assms(1) have h: "process_line ft k v st hdr = Inr ?st1"
    by (rule process_line_header)
  have "parse_lines ft k v ?st1 body =
          Inr (?st1\<lparr>sequence_data := (sequence_data ?st1)(sid \<mapsto> [] @ ?lines)\<rparr>)"
    using assms(1,3) by (intro parse_lines_body) simp_all
  then have b: "parse_lines ft k v ?st1 body = Inr ?st2" by simp
  from h b have first: "parse_lines ft k v st (hdr # body) = Inr ?st2" by simp
  have second: "sequence_data st' sid = Some ?lines"
    if l: "later = [] \<or> startswith (strip (hd later)) ''>''"
      and nh: "\<forall>l \<in> set later. \<not> header_for sid l"
      and p: "parse_lines ft k v st (hdr # body @ later) = Inr st'"
  proof -
    have "parse_lines ft k v st ((hdr # body) @ later) = parse_lines ft k v ?st2 later"
      unfolding parse_lines_append first by simp
    with p have p2: "parse_lines ft k v ?st2 later = Inr st'" by simp
    have "sequence_data st' sid = sequence_data ?st2 sid"
      using assms(1) p2 nh l by (intro parse_lines_other_entry) auto
    then show ?thesis by simp
  qed
  from first second show ?thesis by blast
qed

theorem fasta_entry_lines_witness:
  "header_for ''s'' (''>s first'' @ [newline])
   \<and> parse_lines ''gene'' ''ID'' ''x''
        \<lparr>features = [], fasta_start = True, sequence_data = [''s'' \<mapsto> [''TTTT'']],
          current_sequence_id = Some ''s''\<rparr>
        ((''>s first'' @ [newline])
          # ['' AC '' @ [newline], ''##FASTA'' @ [newline], ''GT'' @ [newline]]
          @ [''>t'' @ [newline], ''CC''])
      = Inr \<lparr>features = [], fasta_start = True,
             sequence_data = [''s'' \<mapsto> [''AC'', ''GT''], ''t'' \<mapsto> [''CC'']],
             current_sequence_id = Some ''t''\<rparr>
   \<and> \<not> header_for ''s'' (''>t'' @ [newline]) \<and> \<not> header_for ''s'' ''CC''"
  using fasta_entry_lines [of
          "\<lparr>features = [], fasta_start = True, sequence_data = [''s'' \<mapsto> [''TTTT'']],
            current_sequence_id = Some ''s''\<rparr>"
          "''s''" "''>s first'' @ [newline]"
          "['' AC '' @ [newline], ''##FASTA'' @ [newline], ''GT'' @ [newline]]"
          "''gene''" "''ID''" "''x''"
          "[''>t'' @ [newline], ''CC'']"
          "\<lparr>features = [], fasta_start = True,
             sequence_data = [''s'' \<mapsto> [''AC'', ''GT''], ''t'' \<mapsto> [''CC'']],
             current_sequence_id = Some ''t''\<rparr>"]
  by (simp add: header_for_def process_line_def strip_def isspace_def
        startswith_def newline_def split_ws.simps)


end
